theory Spec2Isabelle
  imports Main
begin

section \<open>The React component \<open>App\<close> (frontend/src/app.js)\<close>

subsection \<open>Data\<close>

text \<open>
  A user record as the component renders it (\<open>user.id\<close>, \<open>user.name\<close>, \<open>user.email\<close>),
  and the form's draft \<open>newUser\<close> with its two text fields.
\<close>

record user =
  user_id :: int
  user_name :: string
  user_email :: string

record draft =
  name :: string
  email :: string

text \<open>
  The three \<open>useState\<close> cells of the component: \<open>users\<close>, \<open>newUser\<close>, \<open>loading\<close>.
  They are everything the render function reads.
\<close>

record app =
  users :: "user list"
  newUser :: draft
  loading :: bool

text \<open>
  axios rejects the promise of a request on a network failure or on a status outside 2xx.
  The outcome of a GET is \<open>transport_error + user list\<close> (the parsed body,
  \<open>response.data\<close>); the body of a POST response is never read, so its outcome is
  \<open>transport_error + unit\<close>.
\<close>

datatype transport_error = NetworkError | BadStatus nat

datatype request = Get string | Post string draft

text \<open>
  An async function that has reached its \<open>await\<close> is suspended until the request
  settles. \<open>In_fetchUsers origin\<close> is a suspended \<open>fetchUsers\<close>; \<open>origin\<close> records
  who called it: \<open>None\<close> for the mount effect, \<open>Some c\<close> for the continuation of the
  \<open>createUser\<close> call whose POST was request \<open>c\<close>. \<open>In_createUser\<close> is a suspended
  \<open>createUser\<close>.
\<close>

datatype awaiting = In_fetchUsers "nat option" | In_createUser

text \<open>
  The component together with what surrounds it: the console, whether the
  \<open>useEffect\<close> callback has run, the requests in flight (each with its sequence number
  and the function suspended on it) and the number of requests sent so far.
\<close>

record runtime =
  view :: app
  console :: "(string \<times> transport_error) list"
  effect_ran :: bool
  inflight :: "(nat \<times> request \<times> awaiting) list"
  sent :: nat

subsection \<open>The base URL\<close>

text \<open>
  \<open>process.env.REACT_APP_API_URL || 'http://localhost:5000/api'\<close>. A member of
  \<open>process.env\<close> is a string or \<open>undefined\<close> (\<open>None\<close>); \<open>undefined\<close> and the empty
  string are the falsy ones, and \<open>a || b\<close> is \<open>a\<close> when \<open>a\<close> is truthy and \<open>b\<close>
  otherwise.
\<close>

fun truthy :: "string option \<Rightarrow> bool" where
  "truthy None = False"
| "truthy (Some v) = (v \<noteq> [])"

definition API_BASE_URL :: "string option \<Rightarrow> string" where
  "API_BASE_URL REACT_APP_API_URL =
     (case REACT_APP_API_URL of
        Some v \<Rightarrow> if truthy (Some v) then v else ''http://localhost:5000/api''
      | None \<Rightarrow> ''http://localhost:5000/api'')"

subsection \<open>State setters and effects\<close>

definition setUsers :: "user list \<Rightarrow> runtime \<Rightarrow> runtime" where
  "setUsers v s = s\<lparr>view := (view s)\<lparr>users := v\<rparr>\<rparr>"

definition setNewUser :: "draft \<Rightarrow> runtime \<Rightarrow> runtime" where
  "setNewUser v s = s\<lparr>view := (view s)\<lparr>newUser := v\<rparr>\<rparr>"

definition setLoading :: "bool \<Rightarrow> runtime \<Rightarrow> runtime" where
  "setLoading v s = s\<lparr>view := (view s)\<lparr>loading := v\<rparr>\<rparr>"

definition console_error :: "string \<Rightarrow> transport_error \<Rightarrow> runtime \<Rightarrow> runtime" where
  "console_error msg e s = s\<lparr>console := console s @ [(msg, e)]\<rparr>"

text \<open>
  Sending a request and suspending on it: the request gets the next sequence number
  and joins the requests in flight.
\<close>

definition axios_send :: "request \<Rightarrow> awaiting \<Rightarrow> runtime \<Rightarrow> runtime" where
  "axios_send r k s = s\<lparr>inflight := inflight s @ [(sent s, r, k)], sent := Suc (sent s)\<rparr>"

subsection \<open>\<open>fetchUsers\<close> and \<open>createUser\<close>\<close>

text \<open>
  \<open>fetchUsers\<close> up to its \<open>await\<close>: \<open>setLoading(true)\<close>, then the GET of
  \<open>${API_BASE_URL}/users\<close>.
\<close>

definition fetchUsers :: "string option \<Rightarrow> nat option \<Rightarrow> runtime \<Rightarrow> runtime" where
  "fetchUsers env origin s =
     axios_send (Get (API_BASE_URL env @ ''/users'')) (In_fetchUsers origin)
       (setLoading True s)"

text \<open>
  \<open>fetchUsers\<close> after its \<open>await\<close>: \<open>setUsers(response.data)\<close> when the promise is
  fulfilled, the \<open>catch\<close> block when it is rejected, and the \<open>finally\<close> block in both
  cases.
\<close>

fun fetchUsers_resume :: "transport_error + user list \<Rightarrow> runtime \<Rightarrow> runtime" where
  "fetchUsers_resume (Inr data) s = setLoading False (setUsers data s)"
| "fetchUsers_resume (Inl e) s =
     setLoading False (console_error ''Error fetching users:'' e s)"

text \<open>
  \<open>createUser\<close> up to its \<open>await\<close>: \<open>e.preventDefault()\<close> touches no state; then the
  POST of the current draft to \<open>${API_BASE_URL}/users\<close>.
\<close>

definition createUser :: "string option \<Rightarrow> runtime \<Rightarrow> runtime" where
  "createUser env s =
     axios_send (Post (API_BASE_URL env @ ''/users'') (newUser (view s))) In_createUser s"

text \<open>
  \<open>createUser\<close> after its \<open>await\<close>, where \<open>c\<close> is the sequence number of its POST:
  on fulfilment the draft is reset and \<open>fetchUsers()\<close> is called (not awaited); on
  rejection the \<open>catch\<close> block logs.
\<close>

fun createUser_resume ::
  "string option \<Rightarrow> nat \<Rightarrow> transport_error + unit \<Rightarrow> runtime \<Rightarrow> runtime" where
  "createUser_resume env c (Inr _) s =
     fetchUsers env (Some c) (setNewUser \<lparr>name = [], email = []\<rparr> s)"
| "createUser_resume env c (Inl e) s = console_error ''Error creating user:'' e s"

subsection \<open>The component as a transition system\<close>

text \<open>
  What can happen to the mounted component: the mount effect runs (once), the user
  types into one of the two inputs, the user submits the form, a GET in flight
  settles, a POST in flight settles. JavaScript is single-threaded, so each of these
  runs to its next \<open>await\<close> (or to its end) before the next one starts.
\<close>

datatype event =
    Mount
  | ChangeName string
  | ChangeEmail string
  | Submit
  | GetSettled nat "transport_error + user list"
  | PostSettled nat "transport_error + unit"

definition settle :: "nat \<Rightarrow> runtime \<Rightarrow> runtime" where
  "settle rid s = s\<lparr>inflight := filter (\<lambda>p. fst p \<noteq> rid) (inflight s)\<rparr>"

fun step :: "string option \<Rightarrow> event \<Rightarrow> runtime \<Rightarrow> runtime option" where
  "step env Mount s =
     (if effect_ran s then None else Some (fetchUsers env None (s\<lparr>effect_ran := True\<rparr>)))"
| "step env (ChangeName v) s = Some (setNewUser ((newUser (view s))\<lparr>name := v\<rparr>) s)"
| "step env (ChangeEmail v) s = Some (setNewUser ((newUser (view s))\<lparr>email := v\<rparr>) s)"
| "step env Submit s = Some (createUser env s)"
| "step env (GetSettled rid r) s =
     (case map_of (inflight s) rid of
        Some (req, In_fetchUsers origin) \<Rightarrow> Some (fetchUsers_resume r (settle rid s))
      | _ \<Rightarrow> None)"
| "step env (PostSettled rid r) s =
     (case map_of (inflight s) rid of
        Some (req, In_createUser) \<Rightarrow> Some (createUser_resume env rid r (settle rid s))
      | _ \<Rightarrow> None)"

fun run :: "string option \<Rightarrow> event list \<Rightarrow> runtime \<Rightarrow> runtime option" where
  "run env [] s = Some s"
| "run env (e # es) s = (case step env e s of None \<Rightarrow> None | Some s' \<Rightarrow> run env es s')"

text \<open>
  The state at the first render: \<open>useState([])\<close>, \<open>useState({ name: '', email: '' })\<close>,
  \<open>useState(true)\<close>; nothing logged, the effect not yet run, nothing sent.
\<close>

definition App_init :: runtime where
  "App_init =
     \<lparr>view = \<lparr>users = [], newUser = \<lparr>name = [], email = []\<rparr>, loading = True\<rparr>,
      console = [], effect_ran = False, inflight = [], sent = 0\<rparr>"

subsection \<open>Notions the properties are stated with\<close>

text \<open>
  The result of the most recently completed list-fetch, read off the history of events:
  the body of the last GET that was fulfilled, and \<open>shown\<close> (what the collection held
  at the start of the history) when no GET has been fulfilled. A rejected GET has no
  result and does not count.
\<close>

fun latest_completed_fetch :: "user list \<Rightarrow> event list \<Rightarrow> user list" where
  "latest_completed_fetch shown [] = shown"
| "latest_completed_fetch shown (GetSettled rid (Inr data) # es) =
     latest_completed_fetch data es"
| "latest_completed_fetch shown (e # es) = latest_completed_fetch shown es"

text \<open>The list-fetches in flight: the requests a \<open>fetchUsers\<close> call is suspended on.\<close>

fun is_fetch :: "nat \<times> request \<times> awaiting \<Rightarrow> bool" where
  "is_fetch (rid, req, In_fetchUsers origin) = True"
| "is_fetch (rid, req, In_createUser) = False"

definition list_fetches :: "runtime \<Rightarrow> (nat \<times> request \<times> awaiting) list" where
  "list_fetches s = filter is_fetch (inflight s)"

text \<open>
  A history whose \<open>fetchUsers\<close> calls do not overlap: it can be run, and at none of its
  moments is more than one list-fetch in flight.
\<close>

fun calm :: "string option \<Rightarrow> event list \<Rightarrow> runtime \<Rightarrow> bool" where
  "calm env [] s = (length (list_fetches s) \<le> 1)"
| "calm env (e # es) s =
     (length (list_fetches s) \<le> 1 \<and>
      (case step env e s of None \<Rightarrow> False | Some s' \<Rightarrow> calm env es s'))"

text \<open>
  Three invariants used in the proofs. Sequence numbers of the requests in flight are
  pairwise different and below \<open>sent\<close>. Once the mount effect has run, the loading flag
  is set only when a list-fetch is in flight (\<open>flag_justified\<close>, which holds in every
  reachable state). And the flag is set whenever a list-fetch is in flight, and, once
  the mount effect has run, only then (\<open>flag_agrees\<close>, which holds as long as
  list-fetches do not overlap).
\<close>

definition numbered :: "runtime \<Rightarrow> bool" where
  "numbered s =
     (distinct (map fst (inflight s)) \<and> (\<forall>p \<in> set (inflight s). fst p < sent s))"

definition flag_justified :: "runtime \<Rightarrow> bool" where
  "flag_justified s = (effect_ran s \<longrightarrow> loading (view s) \<longrightarrow> list_fetches s \<noteq> [])"

definition flag_agrees :: "runtime \<Rightarrow> bool" where
  "flag_agrees s =
     ((list_fetches s \<noteq> [] \<longrightarrow> loading (view s)) \<and>
      (effect_ran s \<longrightarrow> loading (view s) \<longrightarrow> list_fetches s \<noteq> []))"

subsection \<open>A concrete session\<close>

text \<open>
  The server holds Ada; the user types Bob's name and address and submits. \<open>listing\<close> is
  the component just after the mount effect, \<open>creating\<close> the component just after the
  submission, with the first list-fetch answered in between.
\<close>

definition ada :: user where
  "ada = \<lparr>user_id = 1, user_name = ''Ada'', user_email = ''ada@x.com''\<rparr>"

definition bob :: user where
  "bob = \<lparr>user_id = 2, user_name = ''Bob'', user_email = ''bob@x.com''\<rparr>"

definition bob_draft :: draft where
  "bob_draft = \<lparr>name = ''Bob'', email = ''bob@x.com''\<rparr>"

definition listing :: runtime where
  "listing =
     \<lparr>view = \<lparr>users = [], newUser = \<lparr>name = [], email = []\<rparr>, loading = True\<rparr>,
      console = [], effect_ran = True,
      inflight = [(0, Get ''http://localhost:5000/api/users'', In_fetchUsers None)],
      sent = 1\<rparr>"

definition creating :: runtime where
  "creating =
     \<lparr>view = \<lparr>users = [ada], newUser = bob_draft, loading = False\<rparr>,
      console = [], effect_ran = True,
      inflight = [(1, Post ''http://localhost:5000/api/users'' bob_draft, In_createUser)],
      sent = 2\<rparr>"

definition refetching :: runtime where
  "refetching =
     \<lparr>view = \<lparr>users = [ada], newUser = \<lparr>name = [], email = []\<rparr>, loading = True\<rparr>,
      console = [], effect_ran = True,
      inflight = [(2, Get ''http://localhost:5000/api/users'', In_fetchUsers (Some 1))],
      sent = 3\<rparr>"

definition listed :: runtime where
  "listed =
     \<lparr>view = \<lparr>users = [ada], newUser = \<lparr>name = [], email = []\<rparr>, loading = False\<rparr>,
      console = [], effect_ran = True, inflight = [], sent = 1\<rparr>"

definition list_failed :: runtime where
  "list_failed =
     \<lparr>view = \<lparr>users = [], newUser = \<lparr>name = [], email = []\<rparr>, loading = False\<rparr>,
      console = [(''Error fetching users:'', BadStatus 500)], effect_ran = True,
      inflight = [], sent = 1\<rparr>"

definition create_failed :: runtime where
  "create_failed =
     \<lparr>view = \<lparr>users = [ada], newUser = bob_draft, loading = False\<rparr>,
      console = [(''Error creating user:'', NetworkError)], effect_ran = True,
      inflight = [], sent = 2\<rparr>"

definition bob_session :: "event list" where
  "bob_session =
     [Mount, GetSettled 0 (Inr [ada]), ChangeName ''Bob'', ChangeEmail ''bob@x.com'', Submit]"

text \<open>
  A second session, in which two list-fetches overlap: the user submits while the first
  list-fetch is still in flight, the create succeeds and starts a second list-fetch,
  and the two are answered one after the other, leaving the component in \<open>quiet_again\<close>.
  A further submission from there (\<open>later_call\<close>) starts a list-fetch that overlaps
  no other; \<open>fetching_again\<close> is the component while it is in flight.
\<close>

definition overlapping_session :: "event list" where
  "overlapping_session =
     [Mount, Submit, PostSettled 1 (Inr ()), GetSettled 0 (Inr []), GetSettled 2 (Inr [ada])]"

definition quiet_again :: runtime where
  "quiet_again =
     \<lparr>view = \<lparr>users = [ada], newUser = \<lparr>name = [], email = []\<rparr>, loading = False\<rparr>,
      console = [], effect_ran = True, inflight = [], sent = 3\<rparr>"

definition later_call :: "event list" where
  "later_call = [Submit, PostSettled 3 (Inr ())]"

definition fetching_again :: runtime where
  "fetching_again =
     \<lparr>view = \<lparr>users = [ada], newUser = \<lparr>name = [], email = []\<rparr>, loading = True\<rparr>,
      console = [], effect_ran = True,
      inflight = [(4, Get ''http://localhost:5000/api/users'', In_fetchUsers (Some 3))],
      sent = 5\<rparr>"

section \<open>The deployment scripts\<close>

subsection \<open>The machine they run on\<close>



subsection \<open>deploy.sh\<close>






subsection \<open>deploy.ps1\<close>





















subsection \<open>Failed builds, pushes and applies\<close>








section \<open>Properties of the component\<close>

subsection \<open>Auxiliary facts\<close>

lemmas app_defs = setUsers_def setNewUser_def setLoading_def console_error_def axios_send_def
  fetchUsers_def createUser_def settle_def

lemma step_GetSettled:
  "step env (GetSettled rid r) s = Some s' \<Longrightarrow>
     (\<exists>req origin. map_of (inflight s) rid = Some (req, In_fetchUsers origin)) \<and>
     s' = fetchUsers_resume r (settle rid s)"
  by (auto split: option.splits awaiting.splits)

lemma step_PostSettled:
  "step env (PostSettled rid r) s = Some s' \<Longrightarrow>
     (\<exists>req. map_of (inflight s) rid = Some (req, In_createUser)) \<and>
     s' = createUser_resume env rid r (settle rid s)"
  by (auto split: option.splits awaiting.splits)

declare step.simps(5,6) [simp del]

lemma inflight_fetchUsers_resume [simp]: "inflight (fetchUsers_resume r s) = inflight s"
  by (cases r) (simp_all add: app_defs)

lemma sent_fetchUsers_resume [simp]: "sent (fetchUsers_resume r s) = sent s"
  by (cases r) (simp_all add: app_defs)

lemma loading_fetchUsers_resume [simp]: "loading (view (fetchUsers_resume r s)) = False"
  by (cases r) (simp_all add: app_defs)

lemma numbered_settle: "numbered s \<Longrightarrow> numbered (settle rid s)"
  by (auto simp: numbered_def settle_def distinct_map_filter)

lemma numbered_send: "numbered s \<Longrightarrow> numbered (axios_send r k s)"
  by (force simp: numbered_def axios_send_def less_Suc_eq)

lemma numbered_fetchUsers: "numbered s \<Longrightarrow> numbered (fetchUsers env origin s)"
  unfolding fetchUsers_def by (rule numbered_send) (simp add: numbered_def setLoading_def)

lemma numbered_step: "numbered s \<Longrightarrow> step env e s = Some s' \<Longrightarrow> numbered s'"
proof (cases e)
  case Mount
  assume "numbered s" "step env e s = Some s'"
  with Mount have "s' = fetchUsers env None (s\<lparr>effect_ran := True\<rparr>)" "numbered (s\<lparr>effect_ran := True\<rparr>)"
    by (auto simp: numbered_def split: if_splits)
  then show ?thesis by (simp add: numbered_fetchUsers)
next
  case (ChangeName v)
  assume "numbered s" "step env e s = Some s'"
  with ChangeName have "s' = setNewUser ((newUser (view s))\<lparr>name := v\<rparr>) s" by simp
  with \<open>numbered s\<close> show ?thesis by (simp add: numbered_def setNewUser_def)
next
  case (ChangeEmail v)
  assume "numbered s" "step env e s = Some s'"
  with ChangeEmail have "s' = setNewUser ((newUser (view s))\<lparr>email := v\<rparr>) s" by simp
  with \<open>numbered s\<close> show ?thesis by (simp add: numbered_def setNewUser_def)
next
  case Submit
  assume "numbered s" "step env e s = Some s'"
  with Submit show ?thesis by (auto simp: createUser_def numbered_send)
next
  case (GetSettled rid r)
  assume n: "numbered s" and "step env e s = Some s'"
  with GetSettled have "s' = fetchUsers_resume r (settle rid s)"
    by (auto dest: step_GetSettled)
  with numbered_settle [OF n, of rid] show ?thesis by (simp add: numbered_def)
next
  case (PostSettled rid r)
  assume n: "numbered s" and "step env e s = Some s'"
  with PostSettled have s': "s' = createUser_resume env rid r (settle rid s)"
    by (auto dest: step_PostSettled)
  show ?thesis
  proof (cases r)
    case (Inl err)
    with s' numbered_settle [OF n, of rid] show ?thesis
      by (simp add: numbered_def console_error_def)
  next
    case (Inr u)
    have "numbered (setNewUser \<lparr>name = [], email = []\<rparr> (settle rid s))"
      using numbered_settle [OF n, of rid] by (simp add: numbered_def setNewUser_def)
    with s' Inr show ?thesis by (simp add: numbered_fetchUsers)
  qed
qed

lemma numbered_run: "numbered s \<Longrightarrow> run env evs s = Some s' \<Longrightarrow> numbered s'"
  by (induction evs arbitrary: s) (auto split: option.splits dest: numbered_step)

lemma numbered_init: "numbered App_init"
  by (simp add: numbered_def App_init_def)

lemma run_snoc:
  "run env (evs @ [e]) s = (case run env evs s of None \<Rightarrow> None | Some s' \<Rightarrow> step env e s')"
  by (induction evs arbitrary: s) (auto split: option.splits)

lemma step_cases:
  assumes "step env e s = Some s'"
  obtains
    (Mount) "e = Mount" "\<not> effect_ran s" "s' = fetchUsers env None (s\<lparr>effect_ran := True\<rparr>)"
  | (Change) d where "s' = setNewUser d s"
  | (Submit) "e = Submit" "s' = createUser env s"
  | (GetSettled) rid r req origin where "e = GetSettled rid r"
      "map_of (inflight s) rid = Some (req, In_fetchUsers origin)"
      "s' = fetchUsers_resume r (settle rid s)"
  | (PostFailed) rid err req where "e = PostSettled rid (Inl err)"
      "map_of (inflight s) rid = Some (req, In_createUser)"
      "s' = console_error ''Error creating user:'' err (settle rid s)"
  | (PostOk) rid req where "e = PostSettled rid (Inr ())"
      "map_of (inflight s) rid = Some (req, In_createUser)"
      "s' = fetchUsers env (Some rid) (setNewUser \<lparr>name = [], email = []\<rparr> (settle rid s))"
proof (cases e)
  case Mount
  with assms that(1) show ?thesis by (auto split: if_splits)
next
  case (ChangeName v)
  with assms that(2) show ?thesis by auto
next
  case (ChangeEmail v)
  with assms that(2) show ?thesis by auto
next
  case Submit
  with assms that(3) show ?thesis by auto
next
  case (GetSettled rid r)
  with assms step_GetSettled [of env rid r s s'] that(4) show ?thesis by auto
next
  case (PostSettled rid r)
  with assms step_PostSettled [of env rid r s s'] that(5,6) show ?thesis
    by (cases r) auto
qed

text \<open>The session of the previous section, step by step.\<close>

lemmas scenario_defs = listing_def listed_def list_failed_def creating_def create_failed_def
  refetching_def bob_draft_def bob_session_def App_init_def API_BASE_URL_def step.simps

lemma listing_reached: "run None [Mount] App_init = Some listing"
  by (simp add: scenario_defs app_defs)

lemma creating_reached: "run None bob_session App_init = Some creating"
  by (simp add: scenario_defs app_defs)

lemma refetching_reached:
  "run None (bob_session @ [PostSettled 1 (Inr ())]) App_init = Some refetching"
  by (simp add: scenario_defs app_defs)

lemma listing_fulfilled: "step None (GetSettled 0 (Inr [ada])) listing = Some listed"
  by (simp add: scenario_defs app_defs)


lemma creating_rejected:
  "step None (PostSettled 1 (Inl NetworkError)) creating = Some create_failed"
  by (simp add: scenario_defs app_defs)

lemma creating_fulfilled: "step None (PostSettled 1 (Inr ())) creating = Some refetching"
  by (simp add: scenario_defs app_defs)

lemma refetching_fulfilled:
  "step None (GetSettled 2 (Inr [ada, bob])) refetching =
     Some \<lparr>view = \<lparr>users = [ada, bob], newUser = \<lparr>name = [], email = []\<rparr>, loading = False\<rparr>,
           console = [], effect_ran = True, inflight = [], sent = 3\<rparr>"
  by (simp add: scenario_defs app_defs)

subsection \<open>The collection\<close>

text \<open>
  C1. Whenever a list-fetch is fulfilled, the collection afterwards is exactly the
  sequence of user records in the response: same elements, same order, same
  duplicates.
\<close>

theorem C1_loadAll_success:
  "step env (GetSettled rid (Inr data)) s = Some s' \<Longrightarrow> users (view s') = data"
  by (drule step_GetSettled) (simp add: app_defs)

theorem C1_loadAll_success_witness:
  "step None (GetSettled 0 (Inr [ada])) listing = Some listed \<and> users (view listed) = [ada]"
  using C1_loadAll_success [OF listing_fulfilled] listing_fulfilled by simp

lemma step_users:
  "step env e s = Some s' \<Longrightarrow> users (view s') = latest_completed_fetch (users (view s)) [e]"
proof (cases e)
  case (GetSettled rid r)
  assume "step env e s = Some s'"
  with GetSettled step_GetSettled [of env rid r s s']
  have "s' = fetchUsers_resume r (settle rid s)" by simp
  with GetSettled show ?thesis by (cases r) (simp_all add: app_defs)
next
  case (PostSettled rid r)
  assume "step env e s = Some s'"
  with PostSettled step_PostSettled [of env rid r s s']
  have "s' = createUser_resume env rid r (settle rid s)" by simp
  with PostSettled show ?thesis by (cases r) (simp_all add: app_defs)
qed (auto simp: app_defs split: if_splits)

lemma lcf_Cons: "latest_completed_fetch shown (e # es) = latest_completed_fetch (latest_completed_fetch shown [e]) es"
  by (induction shown "[e]" rule: latest_completed_fetch.induct) auto

lemma run_users:
  "run env evs s = Some s' \<Longrightarrow> users (view s') = latest_completed_fetch (users (view s)) evs"
proof (induction evs arbitrary: s)
  case Nil
  then show ?case by simp
next
  case (Cons e es)
  then obtain s1 where s1: "step env e s = Some s1" and r: "run env es s1 = Some s'"
    by (auto split: option.splits)
  from Cons.IH [OF r] step_users [OF s1] show ?case
    by (subst lcf_Cons) simp
qed

text \<open>
  C2. At every reachable state the collection is the result of the most recently
  completed list-fetch (the empty initial collection before the first one completes).
  Submitting the draft writes nothing to the collection, and neither does the
  settling of the create request: a created record can appear only through the result
  of a later list-fetch.
\<close>

theorem C2_collection_is_latest_fetch:
  assumes "run env evs App_init = Some s"
  shows "users (view s) = latest_completed_fetch [] evs \<and>
         users (view (createUser env s)) = users (view s) \<and>
         (step env (PostSettled rid r) s = Some s' \<longrightarrow> users (view s') = users (view s))"
proof -
  from run_users [OF assms] have "users (view s) = latest_completed_fetch [] evs"
    by (simp add: App_init_def)
  moreover have "users (view (createUser env s)) = users (view s)"
    by (simp add: app_defs)
  moreover have "users (view s') = users (view s)" if "step env (PostSettled rid r) s = Some s'"
    using step_users [OF that] by simp
  ultimately show ?thesis by simp
qed

theorem C2_collection_is_latest_fetch_witness:
  "run None bob_session App_init = Some creating \<and>
   users (view creating) = latest_completed_fetch [] bob_session \<and>
   users (view creating) = [ada] \<and>
   step None (PostSettled 1 (Inr ())) creating = Some refetching \<and>
   users (view refetching) = users (view creating)"
  using C2_collection_is_latest_fetch [OF creating_reached, of 1 "Inr ()" refetching]
    creating_reached creating_fulfilled
  by (simp add: creating_def)

subsection \<open>Failures\<close>

text \<open>
  C3. When the create request of a submission fails, the draft is what it was, the
  collection is what it was, no request is sent (so no second list-fetch is
  triggered), and the only trace of the failure is one line on the console. The part
  of the submission before the request is sent does not touch the draft or the
  collection either.
\<close>

theorem C3_create_failure:
  "view (createUser env s) = view s \<and>
   (step env (PostSettled rid (Inl e)) s = Some s' \<longrightarrow>
      newUser (view s') = newUser (view s) \<and>
      users (view s') = users (view s) \<and>
      sent s' = sent s \<and>
      inflight s' = filter (\<lambda>p. fst p \<noteq> rid) (inflight s) \<and>
      console s' = console s @ [(''Error creating user:'', e)])"
  by (auto dest!: step_PostSettled simp add: app_defs)

theorem C3_create_failure_witness:
  "step None (PostSettled 1 (Inl NetworkError)) creating = Some create_failed \<and>
   newUser (view create_failed) = bob_draft \<and>
   users (view create_failed) = [ada] \<and>
   sent create_failed = sent creating \<and>
   inflight create_failed = [] \<and>
   console create_failed = [(''Error creating user:'', NetworkError)]"
  using C3_create_failure [of None creating 1 NetworkError create_failed] creating_rejected
  by (simp add: creating_def)



subsection \<open>A successful submission\<close>

text \<open>
  C5. When the create request of a submission succeeds, the draft is reset to empty
  name and empty address, and \<open>fetchUsers\<close> is called again: a new GET of the users
  is in flight.
\<close>

theorem C5_create_success:
  "step env (PostSettled rid (Inr u)) s = Some s' \<Longrightarrow>
     newUser (view s') = \<lparr>name = [], email = []\<rparr> \<and>
     s' = fetchUsers env (Some rid) (setNewUser \<lparr>name = [], email = []\<rparr> (settle rid s)) \<and>
     inflight s' = filter (\<lambda>p. fst p \<noteq> rid) (inflight s) @
        [(sent s, Get (API_BASE_URL env @ ''/users''), In_fetchUsers (Some rid))]"
  by (drule step_PostSettled) (simp add: app_defs)

theorem C5_create_success_witness:
  "step None (PostSettled 1 (Inr ())) creating = Some refetching \<and>
   newUser (view refetching) = \<lparr>name = [], email = []\<rparr> \<and>
   inflight refetching = [(2, Get ''http://localhost:5000/api/users'', In_fetchUsers (Some 1))]"
  using C5_create_success [OF creating_fulfilled] creating_fulfilled
  by (simp add: scenario_defs app_defs)

text \<open>
  C9. A submission never writes the loading flag itself. Sending the create request
  leaves the flag alone; a failed create leaves it alone; after a successful create
  the flag is what the call of \<open>fetchUsers\<close> makes of it, that call being entered with
  the flag unchanged.
\<close>

theorem C9_create_keeps_loading:
  "loading (view (createUser env s)) = loading (view s) \<and>
   (step env (PostSettled rid (Inl e)) s = Some s' \<longrightarrow>
      loading (view s') = loading (view s)) \<and>
   (step env (PostSettled rid (Inr u)) s = Some s'' \<longrightarrow>
      (\<exists>s0. loading (view s0) = loading (view s) \<and> s'' = fetchUsers env (Some rid) s0))"
proof (intro conjI impI)
  show "loading (view (createUser env s)) = loading (view s)"
    by (simp add: app_defs)
next
  assume "step env (PostSettled rid (Inl e)) s = Some s'"
  then show "loading (view s') = loading (view s)"
    by (auto dest!: step_PostSettled simp add: app_defs)
next
  assume "step env (PostSettled rid (Inr u)) s = Some s''"
  then have "s'' = fetchUsers env (Some rid) (setNewUser \<lparr>name = [], email = []\<rparr> (settle rid s))"
    by (auto dest!: step_PostSettled)
  moreover have "loading (view (setNewUser \<lparr>name = [], email = []\<rparr> (settle rid s))) =
      loading (view s)"
    by (simp add: app_defs)
  ultimately show "\<exists>s0. loading (view s0) = loading (view s) \<and>
      s'' = fetchUsers env (Some rid) s0"
    by blast
qed

theorem C9_create_keeps_loading_witness:
  "loading (view (createUser None creating)) = loading (view creating) \<and>
   step None (PostSettled 1 (Inl NetworkError)) creating = Some create_failed \<and>
   loading (view create_failed) = loading (view creating) \<and>
   step None (PostSettled 1 (Inr ())) creating = Some refetching \<and>
   (\<exists>s0. loading (view s0) = loading (view creating) \<and>
      refetching = fetchUsers None (Some 1) s0)"
  using C9_create_keeps_loading [of None creating 1 NetworkError create_failed "()" refetching]
    creating_rejected creating_fulfilled
  by simp

subsection \<open>Order of the two requests of a submission\<close>

lemma origin_step:
  assumes n: "numbered s"
    and inv: "\<And>g req c. (g, req, In_fetchUsers (Some c)) \<in> set (inflight s) \<Longrightarrow>
               PostSettled c (Inr ()) \<in> set evs \<and> c \<notin> fst ` set (inflight s) \<and> c < sent s"
    and st: "step env e s = Some s'"
    and mem: "(g, req, In_fetchUsers (Some c)) \<in> set (inflight s')"
  shows "PostSettled c (Inr ()) \<in> set (evs @ [e]) \<and> c \<notin> fst ` set (inflight s') \<and> c < sent s'"
  using st
proof (cases rule: step_cases)
  case Mount
  with mem have "(g, req, In_fetchUsers (Some c)) \<in> set (inflight s)"
    by (auto simp: app_defs)
  from inv [OF this] Mount show ?thesis by (auto simp: app_defs)
next
  case (Change d)
  with mem have "(g, req, In_fetchUsers (Some c)) \<in> set (inflight s)"
    by (auto simp: app_defs)
  from inv [OF this] Change show ?thesis by (auto simp: app_defs)
next
  case Submit
  with mem have "(g, req, In_fetchUsers (Some c)) \<in> set (inflight s)"
    by (auto simp: app_defs)
  from inv [OF this] Submit show ?thesis by (auto simp: app_defs)
next
  case (GetSettled rid r req' origin)
  with mem have "(g, req, In_fetchUsers (Some c)) \<in> set (inflight s)"
    by (auto simp: app_defs)
  from inv [OF this] GetSettled show ?thesis by (auto simp: app_defs)
next
  case (PostFailed rid err req')
  with mem have "(g, req, In_fetchUsers (Some c)) \<in> set (inflight s)"
    by (auto simp: app_defs)
  from inv [OF this] PostFailed show ?thesis by (auto simp: app_defs)
next
  case (PostOk rid req')
  from PostOk(2) have "(rid, req', In_createUser) \<in> set (inflight s)"
    by (rule map_of_SomeD)
  with n have rid: "rid < sent s" by (auto simp: numbered_def)
  from mem PostOk consider
      (old) "(g, req, In_fetchUsers (Some c)) \<in> set (inflight s)"
    | (new) "c = rid"
    by (auto simp: app_defs)
  then show ?thesis
  proof cases
    case old
    from inv [OF this] PostOk show ?thesis by (auto simp: app_defs)
  next
    case new
    with PostOk rid show ?thesis by (auto simp: app_defs)
  qed
qed

lemma origin_run:
  "run env evs App_init = Some s \<Longrightarrow>
   (g, req, In_fetchUsers (Some c)) \<in> set (inflight s) \<Longrightarrow>
   PostSettled c (Inr ()) \<in> set evs \<and> c \<notin> fst ` set (inflight s) \<and> c < sent s"
proof (induction evs arbitrary: s g req c rule: rev_induct)
  case Nil
  then show ?case by (auto simp: App_init_def)
next
  case (snoc e evs)
  from snoc.prems(1) obtain s0 where r: "run env evs App_init = Some s0"
    and st: "step env e s0 = Some s"
    by (auto simp: run_snoc split: option.splits)
  from numbered_run [OF numbered_init r] have n: "numbered s0" .
  show ?case
    by (rule origin_step [OF n _ st snoc.prems(2)]) (rule snoc.IH [OF r])
qed

text \<open>
  C7. The two requests of one submission never overlap, and the list-fetch comes second:
  at every reachable state, a list-fetch in flight that was started by the submission
  with create request \<open>c\<close> finds that request settled, successfully, earlier in the
  history, and no longer in flight. Sending the create request starts no list-fetch.
\<close>

theorem C7_create_then_fetch:
  assumes "run env evs App_init = Some s"
    and "(g, req, In_fetchUsers (Some c)) \<in> set (inflight s)"
  shows "PostSettled c (Inr ()) \<in> set evs \<and> c \<notin> fst ` set (inflight s) \<and>
         list_fetches (createUser env s) = list_fetches s"
  using origin_run [OF assms] by (simp add: list_fetches_def app_defs)

theorem C7_create_then_fetch_witness:
  "run None (bob_session @ [PostSettled 1 (Inr ())]) App_init = Some refetching \<and>
   (2, Get ''http://localhost:5000/api/users'', In_fetchUsers (Some 1)) \<in> set (inflight refetching) \<and>
   PostSettled 1 (Inr ()) \<in> set (bob_session @ [PostSettled 1 (Inr ())]) \<and>
   1 \<notin> fst ` set (inflight refetching)"
proof -
  have m: "(2, Get ''http://localhost:5000/api/users'', In_fetchUsers (Some 1))
      \<in> set (inflight refetching)"
    by (simp add: refetching_def)
  from C7_create_then_fetch [OF refetching_reached m] refetching_reached m
  show ?thesis by simp
qed

subsection \<open>The loading flag\<close>

lemma settle_other:
  assumes "numbered s" "map_of (inflight s) rid = Some (req, In_createUser)"
  shows "list_fetches (settle rid s) = list_fetches s"
proof -
  from assms(2) have m: "(rid, req, In_createUser) \<in> set (inflight s)"
    by (rule map_of_SomeD)
  have "\<And>p. p \<in> set (inflight s) \<Longrightarrow> is_fetch p \<Longrightarrow> fst p \<noteq> rid"
  proof
    fix p assume p: "p \<in> set (inflight s)" "is_fetch p" "fst p = rid"
    from assms(1) have "inj_on fst (set (inflight s))"
      by (simp add: numbered_def distinct_map)
    from inj_onD [OF this _ p(1) m] p(3) have "p = (rid, req, In_createUser)"
      by simp
    with p(2) show False by simp
  qed
  then have "filter (\<lambda>p. is_fetch p \<and> fst p \<noteq> rid) (inflight s) = filter is_fetch (inflight s)"
    by (intro filter_cong) auto
  then show ?thesis
    by (simp add: list_fetches_def settle_def conj_commute)
qed

lemma settle_fetch:
  assumes "map_of (inflight s) rid = Some (req, In_fetchUsers origin)"
    "length (list_fetches s) \<le> 1"
  shows "list_fetches (settle rid s) = []"
proof -
  from assms(1) have m: "(rid, req, In_fetchUsers origin) \<in> set (inflight s)"
    by (rule map_of_SomeD)
  then have "(rid, req, In_fetchUsers origin) \<in> set (list_fetches s)"
    by (simp add: list_fetches_def)
  with assms(2) have "list_fetches s = [(rid, req, In_fetchUsers origin)]"
    by (cases "list_fetches s") auto
  moreover have "list_fetches (settle rid s) = filter (\<lambda>p. fst p \<noteq> rid) (list_fetches s)"
    by (simp add: list_fetches_def settle_def conj_commute)
  ultimately show ?thesis by simp
qed

lemma flag_step:
  assumes n: "numbered s" and inv: "flag_agrees s" and st: "step env e s = Some s'"
    and one: "length (list_fetches s) \<le> 1" and one': "length (list_fetches s') \<le> 1"
  shows "flag_agrees s'"
  using st
proof (cases rule: step_cases)
  case Mount
  with inv one' show ?thesis by (auto simp: flag_agrees_def list_fetches_def app_defs)
next
  case (Change d)
  with inv show ?thesis by (auto simp: flag_agrees_def list_fetches_def app_defs)
next
  case Submit
  with inv show ?thesis by (auto simp: flag_agrees_def list_fetches_def app_defs)
next
  case (GetSettled rid r req origin)
  from settle_fetch [OF GetSettled(2) one] GetSettled(3) show ?thesis
    by (simp add: flag_agrees_def list_fetches_def)
next
  case (PostFailed rid err req)
  from settle_other [OF n PostFailed(2)] PostFailed(3) inv show ?thesis
    by (simp add: flag_agrees_def list_fetches_def app_defs)
next
  case (PostOk rid req)
  then show ?thesis by (simp add: flag_agrees_def list_fetches_def app_defs)
qed

lemma calm_here: "calm env evs s \<Longrightarrow> length (list_fetches s) \<le> 1"
  by (cases evs) simp_all

lemma flag_run:
  "numbered s \<Longrightarrow> flag_agrees s \<Longrightarrow> calm env evs s \<Longrightarrow> run env evs s = Some s' \<Longrightarrow>
   flag_agrees s'"
proof (induction evs arbitrary: s)
  case Nil
  then show ?case by simp
next
  case (Cons e es)
  from Cons.prems(4) obtain s1 where st: "step env e s = Some s1"
    and r: "run env es s1 = Some s'"
    by (auto split: option.splits)
  from Cons.prems(3) st have c: "calm env es s1" and one: "length (list_fetches s) \<le> 1"
    by simp_all
  from flag_step [OF Cons.prems(1,2) st one calm_here [OF c]] have "flag_agrees s1" .
  from Cons.IH [OF numbered_step [OF Cons.prems(1) st] this c r] show ?case .
qed

text \<open>
  C6 fails at the first render: \<open>useState(true)\<close> makes the loading flag true before
  the mount effect has called \<open>fetchUsers\<close>, while no list-fetch is in flight.
\<close>

theorem C6_first_render_counterexample:
  "loading (view App_init) \<and> list_fetches App_init = [] \<and> \<not> effect_ran App_init"
  by (simp add: App_init_def list_fetches_def)

lemma flag_justified_step:
  assumes n: "numbered s" and inv: "flag_justified s" and st: "step env e s = Some s'"
  shows "flag_justified s'"
  using st
proof (cases rule: step_cases)
  case Mount
  then show ?thesis by (simp add: flag_justified_def list_fetches_def app_defs)
next
  case (Change d)
  with inv show ?thesis by (simp add: flag_justified_def list_fetches_def app_defs)
next
  case Submit
  with inv show ?thesis by (simp add: flag_justified_def list_fetches_def app_defs)
next
  case (GetSettled rid r req origin)
  then show ?thesis by (simp add: flag_justified_def)
next
  case (PostFailed rid err req)
  from settle_other [OF n PostFailed(2)] PostFailed(3) inv show ?thesis
    by (simp add: flag_justified_def list_fetches_def app_defs)
next
  case (PostOk rid req)
  then show ?thesis by (simp add: flag_justified_def list_fetches_def app_defs)
qed

lemma flag_justified_run:
  "numbered s \<Longrightarrow> flag_justified s \<Longrightarrow> run env evs s = Some s' \<Longrightarrow> flag_justified s'"
proof (induction evs arbitrary: s)
  case Nil
  then show ?case by simp
next
  case (Cons e es)
  from Cons.prems(3) obtain s1 where st: "step env e s = Some s1"
    and r: "run env es s1 = Some s'"
    by (auto split: option.splits)
  from Cons.IH [OF numbered_step [OF Cons.prems(1) st]
      flag_justified_step [OF Cons.prems(1,2) st] r]
  show ?case .
qed

lemma flag_justified_init: "flag_justified App_init"
  by (simp add: flag_justified_def App_init_def)

lemma quiet_again_reached: "run None overlapping_session App_init = Some quiet_again"
  by (simp add: overlapping_session_def quiet_again_def scenario_defs app_defs)

lemma fetching_again_reached: "run None later_call quiet_again = Some fetching_again"
  by (simp add: later_call_def quiet_again_def fetching_again_def scenario_defs app_defs)

lemma later_call_calm: "calm None later_call quiet_again"
  by (simp add: later_call_def quiet_again_def scenario_defs app_defs list_fetches_def)

text \<open>
  C6, amended. At the first render the loading flag is true with no list-fetch in
  flight. From the moment the mount effect has run, in every reachable state, the flag
  is never true while no list-fetch is in flight. And for list-fetches that overlap no
  other, whatever happened before: starting from any reachable state with no
  list-fetch in flight, as long as at most one list-fetch is in flight at a time, the
  flag is true exactly while a list-fetch is in flight, that is from the call of
  \<open>fetchUsers\<close> to the settling of its request, and false at all other times.
\<close>

theorem C6_loading_while_fetching:
  assumes "run env pre App_init = Some s0" and "run env evs s0 = Some s" and "effect_ran s"
  shows "(loading (view s) \<longrightarrow> list_fetches s \<noteq> []) \<and>
         (list_fetches s0 = [] \<and> calm env evs s0 \<longrightarrow>
            loading (view s) = (list_fetches s \<noteq> []))"
proof (intro conjI impI)
  from numbered_run [OF numbered_init assms(1)] have n0: "numbered s0" .
  from flag_justified_run [OF numbered_init flag_justified_init assms(1)]
  have j0: "flag_justified s0" .
  from flag_justified_run [OF n0 j0 assms(2)] assms(3)
  show "list_fetches s \<noteq> []" if "loading (view s)"
    using that by (simp add: flag_justified_def)
  assume q: "list_fetches s0 = [] \<and> calm env evs s0"
  with j0 have "flag_agrees s0"
    by (simp add: flag_agrees_def flag_justified_def)
  from flag_run [OF n0 this _ assms(2)] q assms(3)
  show "loading (view s) = (list_fetches s \<noteq> [])"
    by (auto simp: flag_agrees_def)
qed

theorem C6_loading_while_fetching_witness:
  "run None overlapping_session App_init = Some quiet_again \<and>
   run None later_call quiet_again = Some fetching_again \<and>
   effect_ran fetching_again \<and>
   list_fetches quiet_again = [] \<and> calm None later_call quiet_again \<and>
   \<not> calm None (overlapping_session @ later_call) App_init \<and>
   loading (view fetching_again) \<and> list_fetches fetching_again \<noteq> []"
proof -
  have e: "effect_ran fetching_again"
    by (simp add: fetching_again_def)
  have q: "list_fetches quiet_again = []"
    by (simp add: quiet_again_def list_fetches_def)
  have o: "\<not> calm None (overlapping_session @ later_call) App_init"
    by (simp add: overlapping_session_def later_call_def scenario_defs app_defs
        list_fetches_def)
  have l: "loading (view fetching_again)"
    by (simp add: fetching_again_def)
  from C6_loading_while_fetching [OF quiet_again_reached fetching_again_reached e]
    quiet_again_reached fetching_again_reached later_call_calm e q o l
  show ?thesis by simp
qed

subsection \<open>The base URL\<close>

text \<open>
  C10. When the environment's override of the base URL is unset or the empty string,
  the base URL is the default \<open>http://localhost:5000/api\<close>; the override is used
  when, and only when, it is a non-empty string.
\<close>

theorem C10_base_url_fallback:
  "API_BASE_URL None = ''http://localhost:5000/api'' \<and>
   API_BASE_URL (Some []) = ''http://localhost:5000/api'' \<and>
   API_BASE_URL (Some (c # cs)) = c # cs"
  by (simp add: API_BASE_URL_def)

section \<open>Properties of the deployment scripts\<close>































end
